theory Spec2Isabelle
  imports Complex_Main
begin

section \<open>Confocal-LUV: data reduction scripts\<close>

text \<open>
  The repository is a set of independent Python scripts. The parts embedded here are
  the threshold counter of \<^verbatim>\<open>Raw_Data_Threshold_xlsx_Export.py\<close>, the Hill
  equation and the positivity filter of \<^verbatim>\<open>Raw_Data_Plot_Hill_Fit.py\<close>, the
  file loaders of the export, plot and histogram scripts, and the two functions that
  pick an output file name.

  Numbers are exact: a Python float and an element of a numpy array is a \<open>real\<close>.
  Infinities and NaN are outside the model. The conversion of a value to float32 is a
  parameter \<open>float32\<close> of the loaders and of the threshold count on a float32
  array; \<open>round_float32\<close> is that rounding itself on finite values.
\<close>

subsection \<open>Python exceptions\<close>

text \<open>
  Every exception the embedded code can raise is a value. \<open>ComplexResult\<close> is not an
  exception of Python: it marks a power whose value is a complex number, which the
  real-valued model does not follow further.
\<close>

datatype py_error =
    FileNotFoundError
  | IsADirectoryError
  | IndexError
  | ValueError
  | ZeroDivisionError
  | IndexingError
  | ComplexResult

subsection \<open>Threshold counting\<close>

text \<open>
  \<^verbatim>\<open>
  def count_events_above_threshold(channelA_arr, threshold):
      return np.sum(channelA_arr > threshold)
  \<close>
  The comparison of an array with a scalar of the array's own type is elementwise and
  gives an array of booleans; \<^verbatim>\<open>np.sum\<close> adds them up with
  \<^verbatim>\<open>True\<close> as 1.
\<close>

definition np_greater :: "real list \<Rightarrow> real \<Rightarrow> bool list" where
  "np_greater arr threshold = map (\<lambda>x. x > threshold) arr"

definition np_sum :: "bool list \<Rightarrow> int" where
  "np_sum bs = sum_list (map (\<lambda>b. if b then 1 else 0) bs)"

definition count_events_above_threshold :: "real list \<Rightarrow> real \<Rightarrow> int" where
  "count_events_above_threshold channelA_arr threshold =
     np_sum (np_greater channelA_arr threshold)"

text \<open>
  The array the script passes is the float32 array of the loader, and the threshold is
  a Python scalar. numpy converts such a scalar to the type of the array before it
  compares, so the call on a float32 array compares every element with the threshold
  rounded to float32.
  \<^verbatim>\<open>
  thresholds = [20, 30, 40, 50, 60, 70, 80, 90, 100, 150, 160, 170, 180, 190, 200]
  \<close>
\<close>

definition count_events_float32 :: "(real \<Rightarrow> real) \<Rightarrow> real list \<Rightarrow> real \<Rightarrow> int" where
  "count_events_float32 float32 channelA_arr threshold =
     np_sum (np_greater channelA_arr (float32 threshold))"

definition thresholds :: "real list" where
  "thresholds = [20, 30, 40, 50, 60, 70, 80, 90, 100, 150, 160, 170, 180, 190, 200]"

subsection \<open>Rounding to float32\<close>

text \<open>
  A finite float32 value is a multiple of its quantum with a multiplier of at most 24
  bits: the quantum at \<open>x\<close> is 2 to the power of the binary exponent of \<open>x\<close> less 23, the
  exponent being at least -126. Rounding takes the nearest multiple of the quantum,
  and the one with the even multiplier when two are equally near. Values too large
  for float32, which round to an infinity, are outside the model.
\<close>

definition round_half_even :: "real \<Rightarrow> int" where
  "round_half_even x =
     (let f = \<lfloor>x\<rfloor>
      in if x - of_int f < 1 / 2 then f
         else if 1 / 2 < x - of_int f then f + 1
         else if even f then f else f + 1)"

definition float32_quantum :: "real \<Rightarrow> real" where
  "float32_quantum x = 2 powi (max \<lfloor>log 2 \<bar>x\<bar>\<rfloor> (- 126) - 23)"

definition round_float32 :: "real \<Rightarrow> real" where
  "round_float32 x =
     (if x = 0 then 0
      else float32_quantum x * of_int (round_half_even (x / float32_quantum x)))"

subsection \<open>The Hill equation\<close>

text \<open>
  \<^verbatim>\<open>
  def hill_equation(x, Vmax, Kd, n):
      return (Vmax * x**n) / (Kd**n + x**n)
  \<close>
  The arguments are scalars. Python's power of two floats is 1 for a zero exponent
  (also at base 0), raises ZeroDivisionError for base 0 and a negative exponent, is 0
  for base 0 and a positive exponent, is the real power for a positive base, keeps the
  sign rule for a negative base and an integral exponent, and is a complex number for
  a negative base and any other exponent. A float division by zero raises
  ZeroDivisionError.
\<close>

definition float_pow :: "real \<Rightarrow> real \<Rightarrow> py_error + real" where
  "float_pow x y =
     (if y = 0 then Inr 1
      else if x = 0 then (if y < 0 then Inl ZeroDivisionError else Inr 0)
      else if 0 < x then Inr (x powr y)
      else if of_int \<lfloor>y\<rfloor> = y
        then Inr ((if even \<lfloor>y\<rfloor> then 1 else - 1) * ((- x) powr y))
      else Inl ComplexResult)"

definition float_div :: "real \<Rightarrow> real \<Rightarrow> py_error + real" where
  "float_div a b = (if b = 0 then Inl ZeroDivisionError else Inr (a / b))"

definition hill_equation :: "real \<Rightarrow> real \<Rightarrow> real \<Rightarrow> real \<Rightarrow> py_error + real" where
  "hill_equation x Vmax Kd n =
     (case float_pow x n of
        Inl e \<Rightarrow> Inl e
      | Inr xn \<Rightarrow>
          (case float_pow Kd n of
             Inl e \<Rightarrow> Inl e
           | Inr kn \<Rightarrow> float_div (Vmax * xn) (kn + xn)))"

subsection \<open>The positivity filter of the Hill-fit script\<close>

text \<open>
  \<^verbatim>\<open>
  x = df['Conc']; y = df['Mean']; y_sd = df['SD']
  valid_indices = x > 0
  x = x[valid_indices]
  y = y[valid_indices]
  y_sd = y_sd[valid_indices]
  \<close>
  The data frame is the list of its rows, so its three columns have one length. A
  column indexed by a boolean column keeps the entries at the positions that hold
  \<^verbatim>\<open>True\<close>. The key of the script is computed from a column of the same
  data frame, so it has the length and the index of the column it selects from; a key
  of another length is not followed further and is reported as IndexingError.
\<close>

record hill_row =
  Conc :: real
  Mean :: real
  SD :: real

definition series_gt :: "real list \<Rightarrow> real \<Rightarrow> bool list" where
  "series_gt s c = map (\<lambda>v. v > c) s"

definition series_getitem :: "real list \<Rightarrow> bool list \<Rightarrow> py_error + real list" where
  "series_getitem s key =
     (if length key \<noteq> length s then Inl IndexingError
      else Inr (map fst (filter snd (zip s key))))"

definition hill_fit_filter :: "hill_row list \<Rightarrow> py_error + real list \<times> real list \<times> real list" where
  "hill_fit_filter df =
     (let x = map Conc df;
          y = map Mean df;
          y_sd = map SD df;
          valid_indices = series_gt x 0
      in case series_getitem x valid_indices of
           Inl e \<Rightarrow> Inl e
         | Inr x' \<Rightarrow>
             (case series_getitem y valid_indices of
                Inl e \<Rightarrow> Inl e
              | Inr y' \<Rightarrow>
                  (case series_getitem y_sd valid_indices of
                     Inl e \<Rightarrow> Inl e
                   | Inr y_sd' \<Rightarrow> Inr (x', y', y_sd'))))"

subsection \<open>Formatting numbers and joining paths\<close>

text \<open>
  \<open>str_nat\<close> is the decimal text of a counter as an f-string prints it, and
  \<open>fmt_02d\<close> is the format \<^verbatim>\<open>:02d\<close>: at least two digits, padded with a zero.
  The counters formatted by the scripts start at 1 and only grow, so they are
  naturals. \<open>os_path_join\<close> is \<^verbatim>\<open>os.path.join\<close> of two components with the
  separator \<^verbatim>\<open>/\<close>.
\<close>

definition digit_char :: "nat \<Rightarrow> char" where
  "digit_char d = ''0123456789'' ! d"

fun str_nat :: "nat \<Rightarrow> string" where
  "str_nat n =
     (if n < 10 then [digit_char n]
      else str_nat (n div 10) @ [digit_char (n mod 10)])"

declare str_nat.simps [simp del]

definition fmt_02d :: "nat \<Rightarrow> string" where
  "fmt_02d n = (if n < 10 then ''0'' @ str_nat n else str_nat n)"

definition os_path_join :: "string \<Rightarrow> string \<Rightarrow> string" where
  "os_path_join a b =
     (if take 1 b = ''/'' then b
      else if a = [] \<or> last a = CHR ''/'' then a @ b
      else a @ ''/'' @ b)"

subsection \<open>The file system\<close>

text \<open>
  A path names nothing, a directory, or a regular file. A data file is held as the
  rows \<^verbatim>\<open>csv.reader\<close> yields for it with the tab as delimiter: each row is the
  list of its fields. \<^verbatim>\<open>os.path.exists\<close> holds of files and directories,
  \<^verbatim>\<open>os.path.isfile\<close> of files only, and \<^verbatim>\<open>open\<close> raises on a path that is
  missing or a directory.
\<close>

datatype node = File "string list list" | Dir

type_synonym filesystem = "string \<Rightarrow> node option"

definition os_path_exists :: "filesystem \<Rightarrow> string \<Rightarrow> bool" where
  "os_path_exists fs p = (fs p \<noteq> None)"

definition os_path_isfile :: "filesystem \<Rightarrow> string \<Rightarrow> bool" where
  "os_path_isfile fs p = (case fs p of Some (File rows) \<Rightarrow> True | _ \<Rightarrow> False)"

definition open_csv :: "filesystem \<Rightarrow> string \<Rightarrow> py_error + string list list" where
  "open_csv fs p =
     (case fs p of
        None \<Rightarrow> Inl FileNotFoundError
      | Some Dir \<Rightarrow> Inl IsADirectoryError
      | Some (File rows) \<Rightarrow> Inr rows)"

subsection \<open>The loader of the export script\<close>

text \<open>
  \<^verbatim>\<open>
  def load_files(file_stem):
      channelA_data = []
      channelB_data = []
      for i in range(number_of_files):
          filename = os.path.join(path_A, f"{file_stem}_{i+1:02d}" if i > 0 else file_stem)
          if not os.path.isfile(filename):
              print(f"File does not exist: {filename}")
              continue
          with open(filename) as csvDataFile:
              csvReader = csv.reader(csvDataFile, delimiter=TAB)
              for row in csvReader:
                  channelA_data.append(float(row[0]))
                  channelB_data.append(float(row[1]))
      channelA_arr = np.asarray(channelA_data, dtype=np.float32)
      channelB_arr = np.asarray(channelB_data, dtype=np.float32)
      return channelA_arr, channelB_arr
  \<close>
  The module constants \<open>path_A\<close> and \<open>number_of_files\<close> are arguments, and so are the
  file system, Python's \<^verbatim>\<open>float\<close> on a string (\<open>None\<close> where it raises
  ValueError) and the rounding to float32. The result is the list of the printed lines
  together with the returned pair of arrays or the exception raised.
\<close>

fun read_rows_AB ::
  "(string \<Rightarrow> real option) \<Rightarrow> string list list \<Rightarrow> real list \<Rightarrow> real list
     \<Rightarrow> py_error + real list \<times> real list" where
  "read_rows_AB py_float [] A B = Inr (A, B)"
| "read_rows_AB py_float (row # rows) A B =
     (case row of
        [] \<Rightarrow> Inl IndexError
      | c0 # rest \<Rightarrow>
          (case py_float c0 of
             None \<Rightarrow> Inl ValueError
           | Some a \<Rightarrow>
               (case rest of
                  [] \<Rightarrow> Inl IndexError
                | c1 # _ \<Rightarrow>
                    (case py_float c1 of
                       None \<Rightarrow> Inl ValueError
                     | Some b \<Rightarrow> read_rows_AB py_float rows (A @ [a]) (B @ [b])))))"

fun load_files_loop ::
  "(string \<Rightarrow> real option) \<Rightarrow> filesystem \<Rightarrow> string \<Rightarrow> string \<Rightarrow> nat list
     \<Rightarrow> string list \<Rightarrow> real list \<Rightarrow> real list
     \<Rightarrow> string list \<times> (py_error + real list \<times> real list)" where
  "load_files_loop py_float fs path_A file_stem [] out A B = (out, Inr (A, B))"
| "load_files_loop py_float fs path_A file_stem (i # rest) out A B =
     (let filename =
            os_path_join path_A
              (if i > 0 then file_stem @ ''_'' @ fmt_02d (i + 1) else file_stem)
      in if \<not> os_path_isfile fs filename
         then load_files_loop py_float fs path_A file_stem rest
                (out @ [''File does not exist: '' @ filename]) A B
         else (case open_csv fs filename of
                 Inl e \<Rightarrow> (out, Inl e)
               | Inr rows \<Rightarrow>
                   (case read_rows_AB py_float rows A B of
                      Inl e \<Rightarrow> (out, Inl e)
                    | Inr (A', B') \<Rightarrow>
                        load_files_loop py_float fs path_A file_stem rest out A' B')))"

definition load_files ::
  "(string \<Rightarrow> real option) \<Rightarrow> (real \<Rightarrow> real) \<Rightarrow> filesystem \<Rightarrow> string \<Rightarrow> int \<Rightarrow> string
     \<Rightarrow> string list \<times> (py_error + real list \<times> real list)" where
  "load_files py_float float32 fs path_A number_of_files file_stem =
     (case load_files_loop py_float fs path_A file_stem [0..<nat number_of_files] [] [] [] of
        (out, Inl e) \<Rightarrow> (out, Inl e)
      | (out, Inr (A, B)) \<Rightarrow> (out, Inr (map float32 A, map float32 B)))"

subsection \<open>The loader of the plot and histogram scripts\<close>

text \<open>
  \<^verbatim>\<open>
  def load_files_A(number_of_files):
      channelA_A = []
      for i in range(number_of_files):
          if i == 0:
              filename = os.path.join(path_A, file_stem_A)
          else:
              filename = os.path.join(path_A, f"{file_stem_A}_{i + 1:02d}")
          a = 0
          with open(filename) as csvDataFile:
              csvReader = csv.reader(csvDataFile, delimiter=TAB)
              for row in csvReader:
                  channelA_A.append(float(row[0]))
                  a += 1
          print(f"Loaded {filename}, which contains {a} rows.")
      channelA_arr_A = np.asarray(channelA_A, dtype=np.float32)
      return channelA_arr_A
  \<close>
  \<^verbatim>\<open>Raw_Data_Plot.py\<close> and \<^verbatim>\<open>Raw_Data_Histogram_Plot.py\<close> hold the same
  function. It opens every file without asking whether it exists.
\<close>

fun read_rows_A ::
  "(string \<Rightarrow> real option) \<Rightarrow> string list list \<Rightarrow> real list \<Rightarrow> nat
     \<Rightarrow> py_error + real list \<times> nat" where
  "read_rows_A py_float [] A a = Inr (A, a)"
| "read_rows_A py_float (row # rows) A a =
     (case row of
        [] \<Rightarrow> Inl IndexError
      | c0 # _ \<Rightarrow>
          (case py_float c0 of
             None \<Rightarrow> Inl ValueError
           | Some v \<Rightarrow> read_rows_A py_float rows (A @ [v]) (a + 1)))"

fun load_files_A_loop ::
  "(string \<Rightarrow> real option) \<Rightarrow> filesystem \<Rightarrow> string \<Rightarrow> string \<Rightarrow> nat list
     \<Rightarrow> string list \<Rightarrow> real list \<Rightarrow> string list \<times> (py_error + real list)" where
  "load_files_A_loop py_float fs path_A file_stem_A [] out A = (out, Inr A)"
| "load_files_A_loop py_float fs path_A file_stem_A (i # rest) out A =
     (let filename =
            (if i = 0 then os_path_join path_A file_stem_A
             else os_path_join path_A (file_stem_A @ ''_'' @ fmt_02d (i + 1)))
      in case open_csv fs filename of
           Inl e \<Rightarrow> (out, Inl e)
         | Inr rows \<Rightarrow>
             (case read_rows_A py_float rows A 0 of
                Inl e \<Rightarrow> (out, Inl e)
              | Inr (A', a) \<Rightarrow>
                  load_files_A_loop py_float fs path_A file_stem_A rest
                    (out @ [''Loaded '' @ filename @ '', which contains '' @ str_nat a
                              @ '' rows.''])
                    A'))"

definition load_files_A ::
  "(string \<Rightarrow> real option) \<Rightarrow> (real \<Rightarrow> real) \<Rightarrow> filesystem \<Rightarrow> string \<Rightarrow> string \<Rightarrow> int
     \<Rightarrow> string list \<times> (py_error + real list)" where
  "load_files_A py_float float32 fs path_A file_stem_A number_of_files =
     (case load_files_A_loop py_float fs path_A file_stem_A [0..<nat number_of_files] [] [] of
        (out, Inl e) \<Rightarrow> (out, Inl e)
      | (out, Inr A) \<Rightarrow> (out, Inr (map float32 A)))"

subsection \<open>Choosing an output file name\<close>

text \<open>
  \<^verbatim>\<open>
  def get_unique_filename(path, base_filename, extension="xlsx"):
      version = 1
      filename = f"{base_filename}.{extension}"
      file_path = os.path.join(path, filename)
      while os.path.exists(file_path):
          version += 1
          filename = f"{base_filename}_v{version}.{extension}"
          file_path = os.path.join(path, filename)
      return file_path

  def get_next_filename(base_filename):
      version = 1
      while os.path.exists(f"{base_filename}_v{version}.svg"):
          version += 1
      return f"{base_filename}_v{version}.svg"
  \<close>
  Both loops run as long as the candidate exists, so each is a partial function:
  \<open>None\<close> is the loop that never ends. The export
  \<^verbatim>\<open>df.to_excel(excel_output_path, index=False)\<close>, when it succeeds, writes a
  file at the path it is given; an export that fails writes nothing.
\<close>

partial_function (option) unique_loop ::
  "filesystem \<Rightarrow> string \<Rightarrow> string \<Rightarrow> string \<Rightarrow> nat \<Rightarrow> string \<Rightarrow> string option" where
  "unique_loop fs path base_filename extension version file_path =
     (if os_path_exists fs file_path
      then unique_loop fs path base_filename extension (version + 1)
             (os_path_join path
                (base_filename @ ''_v'' @ str_nat (version + 1) @ ''.'' @ extension))
      else Some file_path)"

declare unique_loop.simps [code]

definition get_unique_filename :: "filesystem \<Rightarrow> string \<Rightarrow> string \<Rightarrow> string \<Rightarrow> string option" where
  "get_unique_filename fs path base_filename extension =
     unique_loop fs path base_filename extension 1
       (os_path_join path (base_filename @ ''.'' @ extension))"

partial_function (option) next_loop :: "filesystem \<Rightarrow> string \<Rightarrow> nat \<Rightarrow> string option" where
  "next_loop fs base_filename version =
     (if os_path_exists fs (base_filename @ ''_v'' @ str_nat version @ ''.svg'')
      then next_loop fs base_filename (version + 1)
      else Some (base_filename @ ''_v'' @ str_nat version @ ''.svg''))"

declare next_loop.simps [code]

definition get_next_filename :: "filesystem \<Rightarrow> string \<Rightarrow> string option" where
  "get_next_filename fs base_filename = next_loop fs base_filename 1"

definition to_excel :: "filesystem \<Rightarrow> string \<Rightarrow> string list list \<Rightarrow> filesystem" where
  "to_excel fs excel_output_path sheet = fs(excel_output_path \<mapsto> File sheet)"

subsection \<open>Vocabulary of the statements\<close>

text \<open>
  \<open>run_file\<close> is the name of the \<open>i\<close>-th file of a run, as both loaders compute it.
  \<open>rows_of\<close> are the rows of a regular file (none for any other path), \<open>batch_rows\<close>
  the rows of the files of a run in file-then-row order, \<open>missing_messages\<close> the lines
  the export script's loader prints, \<open>field0\<close> and \<open>field1\<close> the parsed first and
  second field of a row (\<open>None\<close> when the field is absent or not a number),
  \<open>versioned\<close> and \<open>svg_name\<close> the \<open>k\<close>-th candidates of the two naming loops.
\<close>

definition run_file :: "string \<Rightarrow> string \<Rightarrow> nat \<Rightarrow> string" where
  "run_file path_A file_stem i =
     os_path_join path_A (if i > 0 then file_stem @ ''_'' @ fmt_02d (i + 1) else file_stem)"

definition rows_of :: "filesystem \<Rightarrow> string \<Rightarrow> string list list" where
  "rows_of fs p = (case fs p of Some (File rows) \<Rightarrow> rows | _ \<Rightarrow> [])"

definition batch_rows :: "filesystem \<Rightarrow> string \<Rightarrow> string \<Rightarrow> nat list \<Rightarrow> string list list" where
  "batch_rows fs path_A file_stem idx =
     concat (map (\<lambda>i. rows_of fs (run_file path_A file_stem i)) idx)"

definition missing_messages :: "filesystem \<Rightarrow> string \<Rightarrow> string \<Rightarrow> nat list \<Rightarrow> string list" where
  "missing_messages fs path_A file_stem idx =
     map (\<lambda>i. ''File does not exist: '' @ run_file path_A file_stem i)
       (filter (\<lambda>i. \<not> os_path_isfile fs (run_file path_A file_stem i)) idx)"

definition field0 :: "(string \<Rightarrow> real option) \<Rightarrow> string list \<Rightarrow> real option" where
  "field0 py_float row = (case row of [] \<Rightarrow> None | c0 # _ \<Rightarrow> py_float c0)"

definition field1 :: "(string \<Rightarrow> real option) \<Rightarrow> string list \<Rightarrow> real option" where
  "field1 py_float row = (case row of c0 # c1 # _ \<Rightarrow> py_float c1 | _ \<Rightarrow> None)"

definition versioned :: "string \<Rightarrow> string \<Rightarrow> string \<Rightarrow> nat \<Rightarrow> string" where
  "versioned path base_filename extension k =
     os_path_join path (base_filename @ ''_v'' @ str_nat k @ ''.'' @ extension)"

definition svg_name :: "string \<Rightarrow> nat \<Rightarrow> string" where
  "svg_name base_filename k = base_filename @ ''_v'' @ str_nat k @ ''.svg''"

subsection \<open>Example data\<close>

text \<open>
  A small file system: a two-channel run \<open>769_01\<close> whose second file is missing, a
  one-channel run \<open>769_02\<close>, and an output directory that already holds some results.
  \<open>demo_float\<close> is Python's \<^verbatim>\<open>float\<close> on the fields of these files.
\<close>

definition demo_fs :: filesystem where
  "demo_fs =
     [''/data/769_01'' \<mapsto> File [[''12.5'', ''3''], [''30'', ''4'']],
      ''/data/769_01_03'' \<mapsto> File [[''45'', ''1'']],
      ''/data/769_02'' \<mapsto> File [[''12.5''], [''45'']],
      ''/out/run.xlsx'' \<mapsto> File [],
      ''/out/run_v2.xlsx'' \<mapsto> Dir,
      ''/out/plot_v1.svg'' \<mapsto> File []]"

definition demo_float :: "string \<Rightarrow> real option" where
  "demo_float =
     [''12.5'' \<mapsto> 25 / 2, ''30'' \<mapsto> 30, ''45'' \<mapsto> 45,
      ''3'' \<mapsto> 3, ''4'' \<mapsto> 4, ''1'' \<mapsto> 1]"

definition demo_df :: "hill_row list" where
  "demo_df =
     [\<lparr>Conc = 0, Mean = 1, SD = 2\<rparr>, \<lparr>Conc = 1 / 2, Mean = 3, SD = 4\<rparr>,
      \<lparr>Conc = - 1, Mean = 5, SD = 6\<rparr>, \<lparr>Conc = 10, Mean = 7, SD = 8\<rparr>]"

section \<open>Results\<close>

subsection \<open>Threshold counting\<close>

lemma np_sum_Cons: "np_sum (b # bs) = (if b then 1 else 0) + np_sum bs"
  by (simp add: np_sum_def)

lemma np_sum_Nil: "np_sum [] = 0"
  by (simp add: np_sum_def)

lemma count_events_Cons:
  "count_events_above_threshold (x # xs) t =
     (if x > t then 1 else 0) + count_events_above_threshold xs t"
  by (simp add: count_events_above_threshold_def np_greater_def np_sum_Cons)

lemma count_events_Nil: "count_events_above_threshold [] t = 0"
  by (simp add: count_events_above_threshold_def np_greater_def np_sum_Nil)

lemma count_events_filter:
  "count_events_above_threshold a t = int (length (filter (\<lambda>x. x > t) a))"
  by (induction a) (simp_all add: count_events_Cons count_events_Nil)

lemma count_events_float32_filter:
  "count_events_float32 cast a t = int (length (filter (\<lambda>x. cast t < x) a))"
  using count_events_filter [of a "cast t"]
  by (simp add: count_events_float32_def count_events_above_threshold_def)

lemma floor_log2:
  assumes "2 powr of_int e \<le> x" "x < 2 powr (of_int e + 1)"
  shows "\<lfloor>log 2 x\<rfloor> = e"
proof -
  have pos: "0 < x"
    using assms(1) by (rule less_le_trans [rotated]) simp
  have "of_int e \<le> log 2 x"
    using assms(1) pos by (simp add: le_log_iff)
  moreover have "log 2 x < of_int e + 1"
    using assms(2) pos by (simp add: log_less_iff)
  ultimately show ?thesis
    by (simp add: floor_eq_iff)
qed

lemma float32_quantum_eq:
  assumes "2 powi e \<le> \<bar>x\<bar>" "\<bar>x\<bar> < 2 powi (e + 1)" "- 126 \<le> e"
  shows "float32_quantum x = 2 powi (e - 23)"
proof -
  have "2 powr of_int e \<le> \<bar>x\<bar>" "\<bar>x\<bar> < 2 powr (of_int e + 1)"
    using assms(1,2) powr_real_of_int' [of 2 e] powr_real_of_int' [of 2 "e + 1"] by simp_all
  then have "\<lfloor>log 2 \<bar>x\<bar>\<rfloor> = e"
    by (rule floor_log2)
  then show ?thesis
    using assms(3) by (simp add: float32_quantum_def)
qed

lemma round_half_even_of_int: "round_half_even (of_int m) = m"
  by (simp add: round_half_even_def)

lemma round_float32_of_int:
  assumes "\<bar>n\<bar> < 2 ^ 24"
  shows "round_float32 (of_int n) = of_int n"
proof (cases "n = 0")
  case True
  then show ?thesis by (simp add: round_float32_def)
next
  case False
  define e where "e = \<lfloor>log 2 \<bar>of_int n :: real\<bar>\<rfloor>"
  have "1 \<le> \<bar>n\<bar>"
    using False by simp
  then have "(1::real) \<le> of_int \<bar>n\<bar>"
    by (simp only: of_int_1_le_iff)
  then have one: "1 \<le> \<bar>of_int n :: real\<bar>"
    by simp
  have "0 \<le> log 2 \<bar>of_int n :: real\<bar>"
    using one by simp
  then have e0: "0 \<le> e"
    by (simp add: e_def)
  have "(of_int \<bar>n\<bar> :: real) < of_int (2 ^ 24)"
    using assms by (simp only: of_int_less_iff)
  then have "\<bar>of_int n :: real\<bar> < 2 ^ 24"
    by simp
  then have "log 2 \<bar>of_int n :: real\<bar> < 24"
    using one by (simp add: log_less_iff)
  then have e23: "e \<le> 23"
    unfolding e_def by (simp add: floor_le_iff)
  define k where "k = nat (23 - e)"
  have q: "float32_quantum (of_int n) = 1 / 2 ^ k"
  proof -
    have "max e (- 126) - 23 = - int k"
      using e0 e23 by (simp add: k_def)
    then have "float32_quantum (of_int n) = 2 powi (- int k)"
      by (simp add: float32_quantum_def e_def)
    then show ?thesis
      by (simp add: power_int_minus field_simps)
  qed
  have "of_int n / (1 / 2 ^ k) = (of_int (n * 2 ^ k) :: real)"
    by simp
  then have "round_half_even (of_int n / float32_quantum (of_int n)) = n * 2 ^ k"
    unfolding q by (simp only: round_half_even_of_int)
  then show ?thesis
    using False by (simp add: round_float32_def q)
qed

lemma thresholds_float32: "list_all (\<lambda>t. round_float32 t = t) thresholds"
proof -
  have "round_float32 (of_int n) = of_int n"
    if "n \<in> {20, 30, 40, 50, 60, 70, 80, 90, 100, 150, 160, 170, 180, 190, 200}" for n :: int
    using that by (intro round_float32_of_int) auto
  from this [of 20] this [of 30] this [of 40] this [of 50] this [of 60] this [of 70]
    this [of 80] this [of 90] this [of 100] this [of 150] this [of 160] this [of 170]
    this [of 180] this [of 190] this [of 200]
  show ?thesis
    by (simp add: thresholds_def)
qed

lemma quantum_tenth: "float32_quantum (13421773 / 134217728) = 1 / 134217728"
  using float32_quantum_eq [of "- 4" "13421773 / 134217728"] by simp

lemma quantum_double_tenth:
  "float32_quantum (3602879701896397 / 36028797018963968) = 1 / 134217728"
  using float32_quantum_eq [of "- 4" "3602879701896397 / 36028797018963968"] by simp

lemma quantum_tie: "float32_quantum (33554431 / 2) = 1"
  using float32_quantum_eq [of 23 "33554431 / 2"] by simp

lemma quantum_two_24: "float32_quantum 16777216 = 2"
  using float32_quantum_eq [of 24 "16777216"] by simp

lemma float32_tenth: "round_float32 (13421773 / 134217728) = 13421773 / 134217728"
  by (simp add: round_float32_def quantum_tenth round_half_even_def)

lemma float32_of_double_tenth:
  "round_float32 (3602879701896397 / 36028797018963968) = 13421773 / 134217728"
  by (simp add: round_float32_def quantum_double_tenth round_half_even_def)

lemma float32_tie: "round_float32 (33554431 / 2) = 16777216"
  by (simp add: round_float32_def quantum_tie round_half_even_def)

lemma float32_two_24: "round_float32 16777216 = 16777216"
  by (simp add: round_float32_def quantum_two_24 round_half_even_def)

text \<open>
  C1, as amended. For every array \<open>a\<close> and threshold \<open>t\<close>, the count on a float32
  array is the number of elements of \<open>a\<close> strictly greater than \<open>t\<close> as converted to
  float32, which is the number of positions that hold such an element. When float32
  holds \<open>t\<close> exactly, as it holds the thresholds of the script, the count is the number
  of elements strictly greater than \<open>t\<close> itself, and one more element equal to \<open>t\<close>
  leaves the count as it was.
\<close>

theorem count_events_float32_strictly_greater:
  "count_events_float32 cast a t = int (length (filter (\<lambda>x. cast t < x) a))
   \<and> count_events_float32 cast a t = int (card {i. i < length a \<and> cast t < a ! i})
   \<and> (cast t = t \<longrightarrow>
        count_events_float32 cast a t = int (length (filter (\<lambda>x. t < x) a))
        \<and> count_events_float32 cast a t = int (card {i. i < length a \<and> t < a ! i})
        \<and> count_events_float32 cast (a @ [t]) t = count_events_float32 cast a t)"
proof -
  have 1: "count_events_float32 cast b t = int (length (filter (\<lambda>x. cast t < x) b))" for b
    by (rule count_events_float32_filter)
  have 2: "length (filter (\<lambda>x. cast t < x) a) = card {i. i < length a \<and> cast t < a ! i}"
    by (rule length_filter_conv_card)
  have 3: "length (filter (\<lambda>x. t < x) a) = card {i. i < length a \<and> t < a ! i}"
    by (rule length_filter_conv_card)
  have 4: "length (filter (\<lambda>x. t < x) (a @ [t])) = length (filter (\<lambda>x. t < x) a)"
    by simp
  show ?thesis
    using 2 3 4 by (simp add: 1)
qed

theorem count_events_float32_strictly_greater_witness:
  "round_float32 20 = 20
   \<and> list_all (\<lambda>x. round_float32 x = x) [10, 20, 25, 45]
   \<and> count_events_float32 round_float32 [10, 20, 25, 45] 20 = 2
   \<and> count_events_float32 round_float32 [10, 20, 25, 45, 20] 20 = 2"
  using count_events_float32_strictly_greater
      [where cast = round_float32 and t = 20 and a = "[10, 20, 25, 45]"]
    round_float32_of_int [of 10] round_float32_of_int [of 20] round_float32_of_int [of 25]
    round_float32_of_int [of 45]
  by simp

text \<open>
  The claim as stated, for every threshold, fails on a float32 array. The array that
  holds the float32 nearest to one tenth, against the Python float \<open>0.1\<close>: the element
  is strictly greater than the threshold, yet the count is 0, because the threshold
  rounds to the element. Likewise the array that holds 16777216 against the threshold
  16777215.5.
\<close>

theorem count_events_float32_counterexample:
  "round_float32 (13421773 / 134217728) = 13421773 / 134217728
   \<and> (3602879701896397 / 36028797018963968 :: real) < 13421773 / 134217728
   \<and> count_events_float32 round_float32 [13421773 / 134217728]
        (3602879701896397 / 36028797018963968) = 0
   \<and> round_float32 16777216 = 16777216
   \<and> (33554431 / 2 :: real) < 16777216
   \<and> count_events_float32 round_float32 [16777216] (33554431 / 2) = 0"
  by (simp add: count_events_float32_filter float32_tenth float32_of_double_tenth float32_tie
        float32_two_24)





text \<open>
  The last two facts hold of the count on a float32 array as well, for every rounding
  that is monotone and leaves the elements of the array as they are.
\<close>

lemma count_events_float32_antimono:
  assumes "mono cast" "t1 \<le> t2"
  shows "count_events_float32 cast a t2 \<le> count_events_float32 cast a t1"
proof -
  have "cast t1 \<le> cast t2"
    using assms by (rule monoD)
  then have "length (filter (\<lambda>x. cast t2 < x) a) \<le> length (filter (\<lambda>x. cast t1 < x) a)"
    by (induction a) auto
  then show ?thesis
    by (simp add: count_events_float32_filter)
qed

lemma count_events_float32_zero:
  assumes "mono cast" "\<forall>x \<in> set a. x \<le> t \<and> cast x = x"
  shows "count_events_float32 cast a t = 0"
proof -
  have "\<not> cast t < x" if "x \<in> set a" for x
  proof -
    have xt: "x \<le> t" and fx: "cast x = x"
      using assms(2) that by simp_all
    have "cast x \<le> cast t"
      using assms(1) xt by (rule monoD)
    then show ?thesis
      using fx by simp
  qed
  then show ?thesis
    by (simp add: count_events_float32_filter filter_empty_conv)
qed

subsection \<open>The Hill equation\<close>

lemma float_pow_pos: "0 < x \<Longrightarrow> float_pow x y = Inr (x powr y)"
  by (simp add: float_pow_def)

lemma float_pow_zero_base: "0 < y \<Longrightarrow> float_pow 0 y = Inr 0"
  by (simp add: float_pow_def)

lemma float_pow_nonzero:
  assumes "x \<noteq> 0" "0 < x \<or> of_int \<lfloor>y\<rfloor> = y"
  shows "\<exists>k. float_pow x y = Inr k \<and> k \<noteq> 0"
  using assms by (auto simp: float_pow_def)

lemma hill_pos:
  assumes "0 < x" "0 < Kd"
  shows "hill_equation x Vmax Kd n = Inr (Vmax * x powr n / (Kd powr n + x powr n))"
proof -
  have "0 < Kd powr n + x powr n"
    using assms by (simp add: add_pos_pos)
  then show ?thesis
    using assms by (simp add: hill_equation_def float_pow_pos float_div_def)
qed

lemma ratio_rewrite:
  fixes a b v :: real
  assumes "0 < a" "0 < b"
  shows "v / (b * (1 / a) + 1) = v * a / (b + a)"
proof -
  have "b * (1 / a) + 1 = (b + a) / a"
    using assms by (simp add: field_simps)
  then show ?thesis
    by simp
qed

lemma hill_limit:
  fixes Kd n Vmax :: real
  assumes "0 < Kd" "0 < n"
  shows "((\<lambda>x. Vmax * x powr n / (Kd powr n + x powr n)) \<longlongrightarrow> Vmax) at_top"
proof -
  have neg: "((\<lambda>x::real. x powr (- n)) \<longlongrightarrow> 0) at_top"
    using assms(2) by (intro tendsto_neg_powr) (simp_all add: filterlim_ident)
  have "((\<lambda>x. Vmax / (Kd powr n * x powr (- n) + 1)) \<longlongrightarrow> Vmax / (Kd powr n * 0 + 1)) at_top"
    by (intro tendsto_intros neg) simp
  then have lim: "((\<lambda>x. Vmax / (Kd powr n * x powr (- n) + 1)) \<longlongrightarrow> Vmax) at_top"
    by simp
  have ev: "eventually
      (\<lambda>x. Vmax / (Kd powr n * x powr (- n) + 1) = Vmax * x powr n / (Kd powr n + x powr n))
      at_top"
    using eventually_gt_at_top [of "0::real"]
  proof (rule eventually_mono)
    fix x :: real assume x: "0 < x"
    then have p: "0 < x powr n" by simp
    have k: "0 < Kd powr n" using assms(1) by simp
    have "x powr (- n) = 1 / x powr n"
      by (simp add: powr_minus divide_inverse)
    then show "Vmax / (Kd powr n * x powr (- n) + 1) = Vmax * x powr n / (Kd powr n + x powr n)"
      using ratio_rewrite [OF p k, of Vmax] by simp
  qed
  show ?thesis
    by (rule Lim_transform_eventually [OF lim ev])
qed

text \<open>
  C5, as amended. For every \<open>Vmax\<close>, every slope \<open>n > 0\<close> and every \<open>Kd \<noteq> 0\<close> whose
  power \<open>Kd**n\<close> is a real number (every \<open>Kd > 0\<close>, and every \<open>Kd < 0\<close> when \<open>n\<close> is an
  integer), the Hill equation at \<open>x = 0\<close> returns 0.
\<close>

theorem hill_at_zero:
  assumes "0 < n" "Kd \<noteq> 0" "0 < Kd \<or> of_int \<lfloor>n\<rfloor> = n"
  shows "hill_equation 0 Vmax Kd n = Inr 0"
proof -
  obtain k where k: "float_pow Kd n = Inr k" "k \<noteq> 0"
    using float_pow_nonzero [OF assms(2,3)] by blast
  show ?thesis
    using assms(1) k by (simp add: hill_equation_def float_pow_zero_base float_div_def)
qed

theorem hill_at_zero_witness:
  "(0::real) < 2 \<and> (- 3::real) \<noteq> 0 \<and> ((0::real) < - 3 \<or> of_int \<lfloor>2::real\<rfloor> = (2::real))
   \<and> hill_equation 0 5 (- 3) 2 = Inr 0
   \<and> hill_equation 0 (9 / 10) (1 / 100) (3 / 2) = Inr 0"
  using hill_at_zero [of 2 "- 3" 5] hill_at_zero [of "3 / 2" "1 / 100" "9 / 10"]
  by simp

text \<open>
  The claim as stated, for every choice of the parameters, fails: with slope 0 the
  power \<open>0**0\<close> is 1 and the value at \<open>x = 0\<close> is \<open>Vmax / 2\<close>; with \<open>Kd = 0\<close> the
  division is 0 by 0 and raises; with a negative slope the power \<open>0**n\<close> raises.
\<close>

theorem hill_at_zero_counterexample:
  "hill_equation 0 1 1 0 = Inr (1 / 2)
   \<and> hill_equation 0 1 1 0 \<noteq> Inr 0
   \<and> hill_equation 0 1 0 1 = Inl ZeroDivisionError
   \<and> hill_equation 0 1 1 (- 1) = Inl ZeroDivisionError"
  by (simp add: hill_equation_def float_pow_def float_div_def)

text \<open>
  C6. For positive \<open>Kd\<close> and positive \<open>n\<close> the Hill equation approaches \<open>Vmax\<close> as
  \<open>x\<close> grows without bound: from some \<open>x\<close> on it returns a value, and these values
  tend to \<open>Vmax\<close>.
\<close>

theorem hill_limit_Vmax:
  assumes "0 < Kd" "0 < n"
  shows "\<exists>f. eventually (\<lambda>x. hill_equation x Vmax Kd n = Inr (f x)) at_top
            \<and> (f \<longlongrightarrow> Vmax) at_top"
proof (intro exI conjI)
  show "eventually
      (\<lambda>x. hill_equation x Vmax Kd n = Inr (Vmax * x powr n / (Kd powr n + x powr n))) at_top"
    using eventually_gt_at_top [of "0::real"]
    by (rule eventually_mono) (simp add: hill_pos assms)
  show "((\<lambda>x. Vmax * x powr n / (Kd powr n + x powr n)) \<longlongrightarrow> Vmax) at_top"
    by (rule hill_limit [OF assms])
qed

theorem hill_limit_Vmax_witness:
  "(0::real) < 1 \<and> (0::real) < 2
   \<and> (\<exists>f. eventually (\<lambda>x. hill_equation x 3 1 2 = Inr (f x)) at_top \<and> (f \<longlongrightarrow> 3) at_top)"
  using hill_limit_Vmax [of 1 2 3] by simp

text \<open>
  C7. With asymptote 1, midpoint 1 and slope 1 the Hill equation at \<open>x = 1\<close> returns
  one half; and for every \<open>Vmax\<close>, every \<open>Kd > 0\<close> and every slope \<open>n\<close> its value at
  \<open>x = Kd\<close> is \<open>Vmax / 2\<close>.
\<close>

theorem hill_half_maximal:
  "hill_equation 1 1 1 1 = Inr (1 / 2)
   \<and> (0 < Kd \<longrightarrow> hill_equation Kd Vmax Kd n = Inr (Vmax / 2))"
proof -
  have "hill_equation Kd Vmax Kd n = Inr (Vmax / 2)" if "0 < Kd"
  proof -
    have "0 < Kd powr n" using that by simp
    then have "Vmax * Kd powr n / (Kd powr n + Kd powr n) = Vmax / 2"
      by (simp add: field_simps)
    then show ?thesis using that by (simp add: hill_pos)
  qed
  moreover have "hill_equation 1 1 1 1 = Inr (1 / 2)"
    by (simp add: hill_pos)
  ultimately show ?thesis by blast
qed

theorem hill_half_maximal_witness:
  "(0::real) < 2
   \<and> hill_equation 2 3 2 (- 3 / 2) = Inr (3 / 2)
   \<and> hill_equation 2 3 2 0 = Inr (3 / 2)
   \<and> hill_equation 1 1 1 1 = Inr (1 / 2)"
  using hill_half_maximal [of 2 3 "- 3 / 2"] hill_half_maximal [of 2 3 0]
  by simp

subsection \<open>The positivity filter\<close>

lemma mask_column:
  "map fst (filter snd (zip (map f df) (map (\<lambda>r. g r > (0::real)) df))) =
     map f (filter (\<lambda>r. g r > 0) df)"
  by (induction df) simp_all

lemma series_getitem_column:
  "series_getitem (map f df) (series_gt (map Conc df) 0) =
     Inr (map f (filter (\<lambda>r. Conc r > 0) df))"
  using mask_column [where f = f and g = Conc and df = df]
  by (simp add: series_getitem_def series_gt_def comp_def)

lemma hill_fit_filter_eq:
  "hill_fit_filter df =
     Inr (map Conc (filter (\<lambda>r. Conc r > 0) df),
          map Mean (filter (\<lambda>r. Conc r > 0) df),
          map SD (filter (\<lambda>r. Conc r > 0) df))"
  by (simp add: hill_fit_filter_def Let_def series_getitem_column)

lemma zip_columns:
  "zip (map f rs) (zip (map g rs) (map h rs)) = map (\<lambda>r. (f r, g r, h r)) rs"
  by (induction rs) simp_all

text \<open>
  C10. The positivity filter of the Hill-fit script returns three series of one
  length; taken together, position by position, they are exactly the rows of the data
  frame whose \<open>Conc\<close> is strictly greater than 0, in their order; every retained \<open>x\<close>
  is positive, and so are the least and the greatest of them when any is retained,
  which is what the logarithms of the smoothing range need.
\<close>

theorem positivity_filter_aligned:
  "\<exists>x y y_sd. hill_fit_filter df = Inr (x, y, y_sd)
     \<and> length x = length y \<and> length y = length y_sd
     \<and> zip x (zip y y_sd) = map (\<lambda>r. (Conc r, Mean r, SD r)) (filter (\<lambda>r. Conc r > 0) df)
     \<and> (\<forall>v \<in> set x. 0 < v)
     \<and> (x \<noteq> [] \<longrightarrow> 0 < Min (set x) \<and> 0 < Max (set x))"
proof -
  define rs where "rs = filter (\<lambda>r. Conc r > 0) df"
  define x where "x = map Conc rs"
  have pos: "\<forall>v \<in> set x. 0 < v"
    by (auto simp: x_def rs_def)
  have mm: "0 < Min (set x) \<and> 0 < Max (set x)" if "x \<noteq> []"
  proof -
    have ne: "set x \<noteq> {}" and fin: "finite (set x)"
      using that by simp_all
    have "Min (set x) \<in> set x" "Max (set x) \<in> set x"
      by (rule Min_in [OF fin ne], rule Max_in [OF fin ne])
    then show ?thesis
      using pos by blast
  qed
  have eq: "hill_fit_filter df = Inr (x, map Mean rs, map SD rs)"
    by (simp add: hill_fit_filter_eq x_def rs_def)
  have len: "length x = length (map Mean rs)" "length (map Mean rs) = length (map SD rs)"
    by (simp_all add: x_def)
  have z: "zip x (zip (map Mean rs) (map SD rs)) =
             map (\<lambda>r. (Conc r, Mean r, SD r)) (filter (\<lambda>r. Conc r > 0) df)"
    unfolding x_def by (simp only: zip_columns rs_def)
  show ?thesis
    using eq len z pos mm by blast
qed

theorem positivity_filter_aligned_witness:
  "hill_fit_filter demo_df = Inr ([1 / 2, 10], [3, 7], [4, 8])
   \<and> map (\<lambda>r. (Conc r, Mean r, SD r)) (filter (\<lambda>r. Conc r > 0) demo_df)
       = [(1 / 2, 3, 4), (10, 7, 8)]"
  using positivity_filter_aligned [of demo_df]
  by (simp add: hill_fit_filter_def series_gt_def series_getitem_def demo_df_def)

subsection \<open>The loaders\<close>

lemma read_rows_AB_ok:
  assumes "\<forall>row \<in> set rows. field0 pf row \<noteq> None \<and> field1 pf row \<noteq> None"
  shows "read_rows_AB pf rows A B =
           Inr (A @ map (\<lambda>row. the (field0 pf row)) rows, B @ map (\<lambda>row. the (field1 pf row)) rows)"
  using assms
proof (induction rows arbitrary: A B)
  case Nil
  then show ?case by simp
next
  case (Cons row rows)
  from Cons.prems obtain c0 c1 rest a b
    where row: "row = c0 # c1 # rest" and a: "pf c0 = Some a" and b: "pf c1 = Some b"
    by (auto simp: field0_def field1_def split: list.splits)
  have "read_rows_AB pf (row # rows) A B = read_rows_AB pf rows (A @ [a]) (B @ [b])"
    by (simp add: row a b)
  also have "\<dots> = Inr ((A @ [a]) @ map (\<lambda>row. the (field0 pf row)) rows,
                        (B @ [b]) @ map (\<lambda>row. the (field1 pf row)) rows)"
    using Cons.prems by (intro Cons.IH) simp
  finally show ?case
    by (simp add: row a b field0_def field1_def)
qed

lemma read_rows_A_ok:
  assumes "\<forall>row \<in> set rows. field0 pf row \<noteq> None"
  shows "read_rows_A pf rows A a =
           Inr (A @ map (\<lambda>row. the (field0 pf row)) rows, a + length rows)"
  using assms
proof (induction rows arbitrary: A a)
  case Nil
  then show ?case by simp
next
  case (Cons row rows)
  from Cons.prems obtain c0 rest v
    where row: "row = c0 # rest" and v: "pf c0 = Some v"
    by (auto simp: field0_def split: list.splits)
  have "read_rows_A pf (row # rows) A a = read_rows_A pf rows (A @ [v]) (a + 1)"
    by (simp add: row v)
  also have "\<dots> = Inr ((A @ [v]) @ map (\<lambda>row. the (field0 pf row)) rows, a + 1 + length rows)"
    using Cons.prems by (intro Cons.IH) simp
  finally show ?case
    by (simp add: row v field0_def)
qed

lemma isfile_open: "os_path_isfile fs p \<Longrightarrow> open_csv fs p = Inr (rows_of fs p)"
  by (auto simp: os_path_isfile_def open_csv_def rows_of_def split: option.splits node.splits)

lemma not_isfile_rows: "\<not> os_path_isfile fs p \<Longrightarrow> rows_of fs p = []"
  by (auto simp: os_path_isfile_def rows_of_def split: option.splits node.splits)

lemma isfile_File: "os_path_isfile fs p \<Longrightarrow> fs p = Some (File (rows_of fs p))"
  by (auto simp: os_path_isfile_def rows_of_def split: option.splits node.splits)

lemma load_files_loop_ok:
  assumes "\<forall>i \<in> set idx. \<forall>rows. fs (run_file path_A stem i) = Some (File rows) \<longrightarrow>
             (\<forall>row \<in> set rows. field0 pf row \<noteq> None \<and> field1 pf row \<noteq> None)"
  shows "load_files_loop pf fs path_A stem idx out A B =
           (out @ missing_messages fs path_A stem idx,
            Inr (A @ map (\<lambda>row. the (field0 pf row)) (batch_rows fs path_A stem idx),
                 B @ map (\<lambda>row. the (field1 pf row)) (batch_rows fs path_A stem idx)))"
  using assms
proof (induction idx arbitrary: out A B)
  case Nil
  then show ?case
    by (simp add: missing_messages_def batch_rows_def)
next
  case (Cons i idx)
  let ?p = "run_file path_A stem i"
  have IH: "load_files_loop pf fs path_A stem idx out' A' B' =
           (out' @ missing_messages fs path_A stem idx,
            Inr (A' @ map (\<lambda>row. the (field0 pf row)) (batch_rows fs path_A stem idx),
                 B' @ map (\<lambda>row. the (field1 pf row)) (batch_rows fs path_A stem idx)))"
    for out' A' B'
    using Cons.prems by (intro Cons.IH) simp
  show ?case
  proof (cases "os_path_isfile fs ?p")
    case False
    then have "load_files_loop pf fs path_A stem (i # idx) out A B =
                 load_files_loop pf fs path_A stem idx (out @ [''File does not exist: '' @ ?p]) A B"
      by (simp add: run_file_def Let_def)
    then show ?thesis
      using False
      by (simp add: IH missing_messages_def batch_rows_def not_isfile_rows)
  next
    case True
    have ok: "\<forall>row \<in> set (rows_of fs ?p). field0 pf row \<noteq> None \<and> field1 pf row \<noteq> None"
      using Cons.prems isfile_File [OF True] by simp
    have "load_files_loop pf fs path_A stem (i # idx) out A B =
            load_files_loop pf fs path_A stem idx out
              (A @ map (\<lambda>row. the (field0 pf row)) (rows_of fs ?p))
              (B @ map (\<lambda>row. the (field1 pf row)) (rows_of fs ?p))"
      using True isfile_open [OF True] read_rows_AB_ok [OF ok, of A B]
      by (simp add: run_file_def Let_def)
    then show ?thesis
      using True
      by (simp add: IH missing_messages_def batch_rows_def)
  qed
qed

lemma load_files_A_loop_ok:
  assumes "\<forall>i \<in> set idx. os_path_isfile fs (run_file path_A stem i) \<and>
             (\<forall>row \<in> set (rows_of fs (run_file path_A stem i)). field0 pf row \<noteq> None)"
  shows "snd (load_files_A_loop pf fs path_A stem idx out A) =
            Inr (A @ map (\<lambda>row. the (field0 pf row)) (batch_rows fs path_A stem idx))"
  using assms
proof (induction idx arbitrary: out A)
  case Nil
  then show ?case
    by (simp add: batch_rows_def)
next
  case (Cons i idx)
  let ?p = "run_file path_A stem i"
  have f: "os_path_isfile fs ?p"
    and ok: "\<forall>row \<in> set (rows_of fs ?p). field0 pf row \<noteq> None"
    using Cons.prems by simp_all
  have name: "(if i = 0 then os_path_join path_A stem
               else os_path_join path_A (stem @ ''_'' @ fmt_02d (i + 1))) = ?p"
    by (simp add: run_file_def)
  have IH: "snd (load_files_A_loop pf fs path_A stem idx out' A') =
            Inr (A' @ map (\<lambda>row. the (field0 pf row)) (batch_rows fs path_A stem idx))"
    for out' A'
    using Cons.prems by (intro Cons.IH) simp
  have "load_files_A_loop pf fs path_A stem (i # idx) out A =
          load_files_A_loop pf fs path_A stem idx
            (out @ [''Loaded '' @ ?p @ '', which contains '' @ str_nat (0 + length (rows_of fs ?p)) @ '' rows.''])
            (A @ map (\<lambda>row. the (field0 pf row)) (rows_of fs ?p))"
    unfolding load_files_A_loop.simps name Let_def
    using isfile_open [OF f] read_rows_A_ok [OF ok, of A 0]
    by simp
  then show ?case
    by (simp add: IH batch_rows_def)
qed

lemma load_files_A_loop_missing:
  assumes "i \<in> set idx" "fs (run_file path_A stem i) = None"
  shows "isl (snd (load_files_A_loop pf fs path_A stem idx out A))"
  using assms
proof (induction idx arbitrary: out A)
  case Nil
  then show ?case by simp
next
  case (Cons j idx)
  let ?p = "run_file path_A stem j"
  have name: "(if j = 0 then os_path_join path_A stem
               else os_path_join path_A (stem @ ''_'' @ fmt_02d (j + 1))) = ?p"
    by (simp add: run_file_def)
  show ?case
  proof (cases "open_csv fs ?p")
    case (Inl e)
    then show ?thesis
      unfolding load_files_A_loop.simps name Let_def by simp
  next
    case (Inr rows)
    then have "fs ?p \<noteq> None"
      by (auto simp: open_csv_def split: option.splits)
    then have "i \<noteq> j" using Cons.prems(2) by auto
    then have i: "i \<in> set idx" using Cons.prems(1) by simp
    show ?thesis
    proof (cases "read_rows_A pf rows A 0")
      case (Inl e)
      then show ?thesis
        unfolding load_files_A_loop.simps name Let_def by (simp add: Inr)
    next
      case (Inr r)
      obtain A' a where r: "r = (A', a)" by (cases r)
      show ?thesis
        unfolding load_files_A_loop.simps name Let_def
        using Cons.IH [OF i Cons.prems(2)] \<open>open_csv fs ?p = Inr rows\<close> Inr r
        by simp
    qed
  qed
qed


lemma parsed_values:
  assumes "\<forall>row \<in> set rows. f row \<noteq> None"
  shows "map f rows = map Some (map (\<lambda>row. the (f row)) rows)"
  using assms by (induction rows) auto

lemma parsed_nth:
  assumes "\<forall>row \<in> set rows. f row \<noteq> None" "j < length rows"
  shows "\<exists>v. f (rows ! j) = Some v \<and> map g (map (\<lambda>row. the (f row)) rows) ! j = g v"
proof -
  have "f (rows ! j) \<noteq> None"
    using assms by simp
  then show ?thesis
    using assms(2) by auto
qed

lemma batch_rows_set:
  "row \<in> set (batch_rows fs path stem idx) \<Longrightarrow>
     \<exists>i \<in> set idx. row \<in> set (rows_of fs (run_file path stem i))"
  by (auto simp: batch_rows_def)

lemma load_files_ok:
  assumes "\<forall>i<nat n. \<forall>row \<in> set (rows_of fs (run_file path stem i)).
             field0 pf row \<noteq> None \<and> field1 pf row \<noteq> None"
  shows "load_files pf rnd fs path n stem =
           (missing_messages fs path stem [0..<nat n],
            Inr (map rnd (map (\<lambda>row. the (field0 pf row)) (batch_rows fs path stem [0..<nat n])),
                 map rnd (map (\<lambda>row. the (field1 pf row)) (batch_rows fs path stem [0..<nat n]))))"
proof -
  have "\<forall>i \<in> set [0..<nat n]. \<forall>rows. fs (run_file path stem i) = Some (File rows) \<longrightarrow>
             (\<forall>row \<in> set rows. field0 pf row \<noteq> None \<and> field1 pf row \<noteq> None)"
    using assms by (auto simp: rows_of_def)
  from load_files_loop_ok [OF this, of "[]" "[]" "[]"]
  show ?thesis
    by (simp add: load_files_def)
qed

lemma load_files_A_ok:
  assumes "\<forall>i<nat n. os_path_isfile fs (run_file path stem i) \<and>
             (\<forall>row \<in> set (rows_of fs (run_file path stem i)). field0 pf row \<noteq> None)"
  shows "snd (load_files_A pf rnd fs path stem n) =
           Inr (map rnd (map (\<lambda>row. the (field0 pf row)) (batch_rows fs path stem [0..<nat n])))"
proof -
  have "\<forall>i \<in> set [0..<nat n]. os_path_isfile fs (run_file path stem i) \<and>
             (\<forall>row \<in> set (rows_of fs (run_file path stem i)). field0 pf row \<noteq> None)"
    using assms by simp
  from load_files_A_loop_ok [OF this, of "[]" "[]"]
  have r: "snd (load_files_A_loop pf fs path stem [0..<nat n] [] []) =
             Inr (map (\<lambda>row. the (field0 pf row)) (batch_rows fs path stem [0..<nat n]))"
    by simp
  obtain out res where l: "load_files_A_loop pf fs path stem [0..<nat n] [] [] = (out, res)"
    by (cases "load_files_A_loop pf fs path stem [0..<nat n] [] []")
  show ?thesis
    using r by (simp add: load_files_A_def l)
qed

lemma load_files_A_missing:
  assumes "i < nat n" "fs (run_file path stem i) = None"
  shows "isl (snd (load_files_A pf rnd fs path stem n))"
proof -
  have "i \<in> set [0..<nat n]"
    using assms(1) by simp
  then have r: "isl (snd (load_files_A_loop pf fs path stem [0..<nat n] [] []))"
    using assms(2) by (rule load_files_A_loop_missing)
  obtain out res where l: "load_files_A_loop pf fs path stem [0..<nat n] [] [] = (out, res)"
    by (cases "load_files_A_loop pf fs path stem [0..<nat n] [] []")
  show ?thesis
    using r by (cases res) (simp_all add: load_files_A_def l)
qed


lemma load_files_A_loop_first_missing:
  assumes "\<forall>j \<in> set pre. os_path_isfile fs (run_file path_A stem j) \<and>
             (\<forall>row \<in> set (rows_of fs (run_file path_A stem j)). field0 pf row \<noteq> None)"
    and "fs (run_file path_A stem i) = None"
  shows "snd (load_files_A_loop pf fs path_A stem (pre @ i # post) out A) = Inl FileNotFoundError"
  using assms(1)
proof (induction pre arbitrary: out A)
  case Nil
  have name: "(if i = 0 then os_path_join path_A stem
               else os_path_join path_A (stem @ ''_'' @ fmt_02d (i + 1))) = run_file path_A stem i"
    by (simp add: run_file_def)
  have "open_csv fs (run_file path_A stem i) = Inl FileNotFoundError"
    using assms(2) by (simp add: open_csv_def)
  then show ?case
    unfolding append_Nil load_files_A_loop.simps name Let_def by simp
next
  case (Cons j pre)
  let ?p = "run_file path_A stem j"
  have f: "os_path_isfile fs ?p"
    and ok: "\<forall>row \<in> set (rows_of fs ?p). field0 pf row \<noteq> None"
    using Cons.prems by simp_all
  have name: "(if j = 0 then os_path_join path_A stem
               else os_path_join path_A (stem @ ''_'' @ fmt_02d (j + 1))) = ?p"
    by (simp add: run_file_def)
  have "load_files_A_loop pf fs path_A stem ((j # pre) @ i # post) out A =
          load_files_A_loop pf fs path_A stem (pre @ i # post)
            (out @ [''Loaded '' @ ?p @ '', which contains '' @ str_nat (0 + length (rows_of fs ?p)) @ '' rows.''])
            (A @ map (\<lambda>row. the (field0 pf row)) (rows_of fs ?p))"
    unfolding append_Cons [of j pre "i # post"] load_files_A_loop.simps name Let_def
    using isfile_open [OF f] read_rows_A_ok [OF ok, of A 0]
    by simp
  then show ?case
    using Cons.prems by (simp add: Cons.IH)
qed

lemma upt_split:
  assumes "i < m"
  shows "[0..<m] = [0..<i] @ i # [Suc i..<m]"
proof -
  have "[0..<i + (m - i)] = [0..<i] @ [i..<i + (m - i)]"
    by (rule upt_add_eq_append) simp
  moreover have "i + (m - i) = m"
    using assms by simp
  moreover have "[i..<m] = i # [Suc i..<m]"
    using assms by (rule upt_conv_Cons)
  ultimately show ?thesis
    by simp
qed

lemma load_files_A_first_missing:
  assumes "i < nat n" "fs (run_file path stem i) = None"
    and "\<forall>j<i. os_path_isfile fs (run_file path stem j) \<and>
             (\<forall>row \<in> set (rows_of fs (run_file path stem j)). field0 pf row \<noteq> None)"
  shows "snd (load_files_A pf rnd fs path stem n) = Inl FileNotFoundError"
proof -
  have pre: "\<forall>j \<in> set [0..<i]. os_path_isfile fs (run_file path stem j) \<and>
             (\<forall>row \<in> set (rows_of fs (run_file path stem j)). field0 pf row \<noteq> None)"
    using assms(3) by simp
  have r: "snd (load_files_A_loop pf fs path stem [0..<nat n] [] []) = Inl FileNotFoundError"
    unfolding upt_split [OF assms(1)]
    using pre assms(2) by (rule load_files_A_loop_first_missing)
  obtain out res where l: "load_files_A_loop pf fs path stem [0..<nat n] [] [] = (out, res)"
    by (cases "load_files_A_loop pf fs path stem [0..<nat n] [] []")
  show ?thesis
    using r by (simp add: load_files_A_def l)
qed

lemmas demo_eval =
  load_files_def load_files_A_def demo_fs_def demo_float_def os_path_join_def
  os_path_isfile_def open_csv_def fmt_02d_def str_nat.simps digit_char_def
  run_file_def rows_of_def field0_def field1_def batch_rows_def missing_messages_def
  upt_rec Let_def

text \<open>
  C4, as amended. When a file of a run is missing, the loader of the export script
  prints \<open>File does not exist:\<close> with the file's name and goes on with the remaining
  files: provided the rows of the files that exist hold two numeric fields, it prints
  exactly one such line for each name that is not a regular file, and returns the two
  channels of the rows of the files that exist, in file-then-row order. The loader of
  the plot and histogram scripts has no such check: when a file of the run is missing
  it returns no array but raises, and the exception is FileNotFoundError when the
  files before the missing one load.
\<close>

theorem missing_file_handling:
  "((\<forall>i<nat n. \<forall>row \<in> set (rows_of fs (run_file path stem i)).
        field0 pf row \<noteq> None \<and> field1 pf row \<noteq> None) \<longrightarrow>
      fst (load_files pf rnd fs path n stem) = missing_messages fs path stem [0..<nat n]
      \<and> (\<exists>va vb. snd (load_files pf rnd fs path n stem) = Inr (map rnd va, map rnd vb)
            \<and> map (field0 pf) (batch_rows fs path stem [0..<nat n]) = map Some va
            \<and> map (field1 pf) (batch_rows fs path stem [0..<nat n]) = map Some vb))
   \<and> (i < nat n \<and> fs (run_file path stem i) = None \<longrightarrow>
        isl (snd (load_files_A pf rnd fs path stem n)))
   \<and> (i < nat n \<and> fs (run_file path stem i) = None
        \<and> (\<forall>j<i. os_path_isfile fs (run_file path stem j)
               \<and> (\<forall>row \<in> set (rows_of fs (run_file path stem j)). field0 pf row \<noteq> None)) \<longrightarrow>
        snd (load_files_A pf rnd fs path stem n) = Inl FileNotFoundError)"
proof (intro conjI impI)
  assume wf: "\<forall>i<nat n. \<forall>row \<in> set (rows_of fs (run_file path stem i)).
        field0 pf row \<noteq> None \<and> field1 pf row \<noteq> None"
  let ?rows = "batch_rows fs path stem [0..<nat n]"
  have ok: "\<forall>row \<in> set ?rows. field0 pf row \<noteq> None \<and> field1 pf row \<noteq> None"
    using wf by (auto dest!: batch_rows_set)
  show "fst (load_files pf rnd fs path n stem) = missing_messages fs path stem [0..<nat n]"
    by (simp add: load_files_ok [OF wf])
  have a: "map (field0 pf) ?rows = map Some (map (\<lambda>row. the (field0 pf row)) ?rows)"
    using ok by (intro parsed_values) simp
  have b: "map (field1 pf) ?rows = map Some (map (\<lambda>row. the (field1 pf row)) ?rows)"
    using ok by (intro parsed_values) simp
  have "snd (load_files pf rnd fs path n stem) =
          Inr (map rnd (map (\<lambda>row. the (field0 pf row)) ?rows),
               map rnd (map (\<lambda>row. the (field1 pf row)) ?rows))"
    by (simp add: load_files_ok [OF wf])
  then show "\<exists>va vb. snd (load_files pf rnd fs path n stem) = Inr (map rnd va, map rnd vb)
            \<and> map (field0 pf) ?rows = map Some va \<and> map (field1 pf) ?rows = map Some vb"
    using a b by blast
next
  assume "i < nat n \<and> fs (run_file path stem i) = None"
  then show "isl (snd (load_files_A pf rnd fs path stem n))"
    using load_files_A_missing by blast
next
  assume "i < nat n \<and> fs (run_file path stem i) = None
        \<and> (\<forall>j<i. os_path_isfile fs (run_file path stem j)
               \<and> (\<forall>row \<in> set (rows_of fs (run_file path stem j)). field0 pf row \<noteq> None))"
  then show "snd (load_files_A pf rnd fs path stem n) = Inl FileNotFoundError"
    using load_files_A_first_missing by blast
qed

theorem missing_file_handling_witness:
  "load_files demo_float (\<lambda>x. x) demo_fs ''/data'' 3 ''769_01'' =
     ([''File does not exist: /data/769_01_02''], Inr ([25 / 2, 30, 45], [3, 4, 1]))
   \<and> run_file ''/data'' ''769_01'' 1 = ''/data/769_01_02''
   \<and> demo_fs (run_file ''/data'' ''769_01'' 1) = None
   \<and> os_path_isfile demo_fs (run_file ''/data'' ''769_01'' 0)
   \<and> isl (snd (load_files_A demo_float (\<lambda>x. x) demo_fs ''/data'' ''769_01'' 3))
   \<and> snd (load_files_A demo_float (\<lambda>x. x) demo_fs ''/data'' ''769_01'' 3)
       = Inl FileNotFoundError"
  using missing_file_handling
    [where n = 3 and fs = demo_fs and path = "''/data''" and stem = "''769_01''"
       and pf = demo_float and rnd = "\<lambda>x. x" and i = 1]
  by (simp add: demo_eval)

text \<open>
  The claim as stated, for every loader, fails for the loader of the plot and
  histogram scripts: with the second file of the run missing it prints that it loaded
  the first file and then raises FileNotFoundError.
\<close>

theorem load_files_A_missing_counterexample:
  "demo_fs ''/data/769_01_02'' = None
   \<and> load_files_A demo_float (\<lambda>x. x) demo_fs ''/data'' ''769_01'' 3 =
       ([''Loaded /data/769_01, which contains 2 rows.''], Inl FileNotFoundError)"
  by (simp add: demo_eval)

text \<open>
  C8, as amended. When every file of the run is a regular file and every row begins
  with a numeric field, the loader of the plot and histogram scripts returns an
  array with one element for each row of the loaded files, and element \<open>j\<close> is the
  parsed first field of the \<open>j\<close>-th row in file-then-row order, converted to float32.
  The loader of the export script returns such an array as the first of its two
  arrays when every row holds a numeric second field as well.
\<close>

theorem loaders_parse_first_field:
  "((\<forall>i<nat n. os_path_isfile fs (run_file path stem i)
        \<and> (\<forall>row \<in> set (rows_of fs (run_file path stem i)). field0 pf row \<noteq> None)) \<longrightarrow>
     (\<exists>arr. snd (load_files_A pf rnd fs path stem n) = Inr arr
        \<and> length arr = length (batch_rows fs path stem [0..<nat n])
        \<and> (\<forall>j<length arr. \<exists>v. field0 pf (batch_rows fs path stem [0..<nat n] ! j) = Some v
                                \<and> arr ! j = rnd v)))
   \<and> ((\<forall>i<nat n. os_path_isfile fs (run_file path stem i)
        \<and> (\<forall>row \<in> set (rows_of fs (run_file path stem i)).
              field0 pf row \<noteq> None \<and> field1 pf row \<noteq> None)) \<longrightarrow>
     (\<exists>arr arrB. snd (load_files pf rnd fs path n stem) = Inr (arr, arrB)
        \<and> length arr = length (batch_rows fs path stem [0..<nat n])
        \<and> (\<forall>j<length arr. \<exists>v. field0 pf (batch_rows fs path stem [0..<nat n] ! j) = Some v
                                \<and> arr ! j = rnd v)))"
proof (intro conjI impI)
  let ?rows = "batch_rows fs path stem [0..<nat n]"
  assume h: "\<forall>i<nat n. os_path_isfile fs (run_file path stem i)
        \<and> (\<forall>row \<in> set (rows_of fs (run_file path stem i)). field0 pf row \<noteq> None)"
  have ok: "\<forall>row \<in> set ?rows. field0 pf row \<noteq> None"
    using h by (auto dest!: batch_rows_set)
  let ?arr = "map rnd (map (\<lambda>row. the (field0 pf row)) ?rows)"
  have "snd (load_files_A pf rnd fs path stem n) = Inr ?arr"
    by (rule load_files_A_ok [OF h])
  moreover have "length ?arr = length ?rows"
    by simp
  moreover have "\<forall>j<length ?arr. \<exists>v. field0 pf (?rows ! j) = Some v \<and> ?arr ! j = rnd v"
  proof (intro allI impI)
    fix j assume "j < length ?arr"
    then have "j < length ?rows" by simp
    then show "\<exists>v. field0 pf (?rows ! j) = Some v \<and> ?arr ! j = rnd v"
      by (rule parsed_nth [OF ok])
  qed
  ultimately show "\<exists>arr. snd (load_files_A pf rnd fs path stem n) = Inr arr
        \<and> length arr = length ?rows
        \<and> (\<forall>j<length arr. \<exists>v. field0 pf (?rows ! j) = Some v \<and> arr ! j = rnd v)"
    by blast
next
  let ?rows = "batch_rows fs path stem [0..<nat n]"
  assume h: "\<forall>i<nat n. os_path_isfile fs (run_file path stem i)
        \<and> (\<forall>row \<in> set (rows_of fs (run_file path stem i)).
              field0 pf row \<noteq> None \<and> field1 pf row \<noteq> None)"
  then have wf: "\<forall>i<nat n. \<forall>row \<in> set (rows_of fs (run_file path stem i)).
        field0 pf row \<noteq> None \<and> field1 pf row \<noteq> None"
    by simp
  have ok: "\<forall>row \<in> set ?rows. field0 pf row \<noteq> None"
    using h by (auto dest!: batch_rows_set)
  let ?arr = "map rnd (map (\<lambda>row. the (field0 pf row)) ?rows)"
  let ?arrB = "map rnd (map (\<lambda>row. the (field1 pf row)) ?rows)"
  have "snd (load_files pf rnd fs path n stem) = Inr (?arr, ?arrB)"
    by (simp add: load_files_ok [OF wf])
  moreover have "length ?arr = length ?rows"
    by simp
  moreover have "\<forall>j<length ?arr. \<exists>v. field0 pf (?rows ! j) = Some v \<and> ?arr ! j = rnd v"
  proof (intro allI impI)
    fix j assume "j < length ?arr"
    then have "j < length ?rows" by simp
    then show "\<exists>v. field0 pf (?rows ! j) = Some v \<and> ?arr ! j = rnd v"
      by (rule parsed_nth [OF ok])
  qed
  ultimately show "\<exists>arr arrB. snd (load_files pf rnd fs path n stem) = Inr (arr, arrB)
        \<and> length arr = length ?rows
        \<and> (\<forall>j<length arr. \<exists>v. field0 pf (?rows ! j) = Some v \<and> arr ! j = rnd v)"
    by blast
qed

theorem loaders_parse_first_field_witness:
  "snd (load_files_A demo_float (\<lambda>x. 2 * x) demo_fs ''/data'' ''769_02'' 1) = Inr [25, 90]
   \<and> snd (load_files demo_float (\<lambda>x. 2 * x) demo_fs ''/data'' 1 ''769_01'')
       = Inr ([25, 60], [6, 8])
   \<and> batch_rows demo_fs ''/data'' ''769_02'' [0..<nat 1] = [[''12.5''], [''45'']]
   \<and> batch_rows demo_fs ''/data'' ''769_01'' [0..<nat 1] = [[''12.5'', ''3''], [''30'', ''4'']]"
  using loaders_parse_first_field
    [where n = 1 and fs = demo_fs and path = "''/data''" and stem = "''769_02''"
       and pf = demo_float and rnd = "\<lambda>x. 2 * x"]
    loaders_parse_first_field
    [where n = 1 and fs = demo_fs and path = "''/data''" and stem = "''769_01''"
       and pf = demo_float and rnd = "\<lambda>x. 2 * x"]
  by (simp add: demo_eval)

text \<open>
  The claim as stated, for both loaders, fails for the loader of the export script:
  on a file that exists and whose rows each hold one numeric field, where the other
  loader returns the array of the values, it raises IndexError at the second field.
\<close>

theorem load_files_single_column_counterexample:
  "os_path_isfile demo_fs (run_file ''/data'' ''769_02'' 0)
   \<and> rows_of demo_fs (run_file ''/data'' ''769_02'' 0) = [[''12.5''], [''45'']]
   \<and> field0 demo_float [''12.5''] = Some (25 / 2)
   \<and> field0 demo_float [''45''] = Some 45
   \<and> snd (load_files_A demo_float (\<lambda>x. x) demo_fs ''/data'' ''769_02'' 1) = Inr [25 / 2, 45]
   \<and> snd (load_files demo_float (\<lambda>x. x) demo_fs ''/data'' 1 ''769_02'') = Inl IndexError"
  by (simp add: demo_eval)

subsection \<open>Output file names\<close>

lemma digit_char_inj:
  assumes "d < 10" "e < 10" "digit_char d = digit_char e"
  shows "d = e"
proof -
  have "distinct ''0123456789''" by simp
  moreover have "d < length ''0123456789''" "e < length ''0123456789''"
    using assms by simp_all
  ultimately show ?thesis
    using assms(3) unfolding digit_char_def by (simp only: nth_eq_iff_index_eq)
qed

lemma str_nat_nonempty: "str_nat n \<noteq> []"
  by (subst str_nat.simps) simp

lemma str_nat_small: "n < 10 \<Longrightarrow> str_nat n = [digit_char n]"
  by (subst str_nat.simps) simp

lemma str_nat_large: "\<not> n < 10 \<Longrightarrow> str_nat n = str_nat (n div 10) @ [digit_char (n mod 10)]"
  by (subst str_nat.simps) simp

lemma str_nat_inj: "str_nat m = str_nat n \<Longrightarrow> m = n"
proof (induction m arbitrary: n rule: str_nat.induct)
  case (1 m)
  show ?case
  proof (cases "m < 10")
    case m: True
    show ?thesis
    proof (cases "n < 10")
      case True
      then show ?thesis
        using "1.prems" m by (simp add: str_nat_small digit_char_inj)
    next
      case False
      then show ?thesis
        using "1.prems" m str_nat_nonempty [of "n div 10"]
        by (simp add: str_nat_small str_nat_large)
    qed
  next
    case m: False
    show ?thesis
    proof (cases "n < 10")
      case True
      then show ?thesis
        using "1.prems" m str_nat_nonempty [of "m div 10"]
        by (simp add: str_nat_small str_nat_large)
    next
      case False
      then have eq: "str_nat (m div 10) = str_nat (n div 10)"
        and d: "digit_char (m mod 10) = digit_char (n mod 10)"
        using "1.prems" m by (simp_all add: str_nat_large)
      have "m div 10 = n div 10"
        using "1.IH" [OF m eq] .
      moreover have "m mod 10 = n mod 10"
        using d by (intro digit_char_inj) simp_all
      ultimately show ?thesis
        by (metis div_mult_mod_eq)
    qed
  qed
qed

lemma os_path_join_inj:
  assumes "os_path_join a (s @ u) = os_path_join a (s @ v)" "s \<noteq> []"
  shows "u = v"
proof -
  have "take 1 (s @ u) = take 1 (s @ v)"
    using assms(2) by (cases s) simp_all
  then show ?thesis
    using assms(1) by (auto simp: os_path_join_def split: if_splits)
qed

lemma versioned_inj: "versioned path base ext j = versioned path base ext k \<Longrightarrow> j = k"
proof -
  assume "versioned path base ext j = versioned path base ext k"
  then have "os_path_join path ((base @ ''_v'') @ (str_nat j @ ''.'' @ ext)) =
             os_path_join path ((base @ ''_v'') @ (str_nat k @ ''.'' @ ext))"
    by (simp add: versioned_def)
  then have "str_nat j @ ''.'' @ ext = str_nat k @ ''.'' @ ext"
    by (rule os_path_join_inj) simp
  then show "j = k"
    by (simp add: str_nat_inj)
qed

lemma svg_name_inj: "svg_name base j = svg_name base k \<Longrightarrow> j = k"
  by (simp add: svg_name_def str_nat_inj)

lemma free_candidate:
  fixes c :: "nat \<Rightarrow> string"
  assumes fin: "finite (dom fs)" and inj: "inj c"
  shows "\<exists>K\<ge>v. \<not> os_path_exists fs (c K) \<and> (\<forall>j. v \<le> j \<and> j < K \<longrightarrow> os_path_exists fs (c j))"
proof -
  have "\<exists>K\<ge>v. \<not> os_path_exists fs (c K)"
  proof (rule ccontr)
    assume "\<not> ?thesis"
    then have "c ` {v..} \<subseteq> dom fs"
      by (auto simp: os_path_exists_def)
    then have "finite (c ` {v..})"
      using fin by (rule finite_subset)
    then have "finite {v..}"
      using inj by (metis finite_imageD inj_on_subset subset_UNIV)
    then show False
      by (simp add: infinite_Ici)
  qed
  then obtain K0 where K0: "v \<le> K0 \<and> \<not> os_path_exists fs (c K0)"
    by blast
  define K where "K = (LEAST K. v \<le> K \<and> \<not> os_path_exists fs (c K))"
  have "v \<le> K \<and> \<not> os_path_exists fs (c K)"
    unfolding K_def using K0 by (rule LeastI)
  moreover have "os_path_exists fs (c j)" if "v \<le> j \<and> j < K" for j
    using not_less_Least [of j "\<lambda>K. v \<le> K \<and> \<not> os_path_exists fs (c K)"] that
    unfolding K_def by blast
  ultimately show ?thesis
    by blast
qed

lemma next_loop_first_free:
  assumes "\<not> os_path_exists fs (svg_name base K)" "v \<le> K"
    "\<forall>j. v \<le> j \<and> j < K \<longrightarrow> os_path_exists fs (svg_name base j)"
  shows "next_loop fs base v = Some (svg_name base K)"
  using assms
proof (induction "K - v" arbitrary: v)
  case 0
  then have "v = K" by simp
  then show ?case
    using "0.prems"(1) by (subst next_loop.simps) (simp add: svg_name_def)
next
  case (Suc d)
  then have lt: "v < K" by simp
  then have ex: "os_path_exists fs (svg_name base v)"
    using Suc.prems(3) by simp
  have "next_loop fs base v = next_loop fs base (v + 1)"
    using ex by (subst next_loop.simps) (simp add: svg_name_def)
  also have "\<dots> = Some (svg_name base K)"
  proof (rule Suc.hyps(1))
    show "d = K - (v + 1)" using Suc.hyps(2) by simp
    show "\<not> os_path_exists fs (svg_name base K)" by (rule Suc.prems(1))
    show "v + 1 \<le> K" using lt by simp
    show "\<forall>j. v + 1 \<le> j \<and> j < K \<longrightarrow> os_path_exists fs (svg_name base j)"
      using Suc.prems(3) by simp
  qed
  finally show ?case .
qed

lemma unique_loop_first_free:
  assumes "\<not> os_path_exists fs (versioned path base ext K)" "v < K"
    "\<forall>j. v < j \<and> j < K \<longrightarrow> os_path_exists fs (versioned path base ext j)"
    "os_path_exists fs file_path"
  shows "unique_loop fs path base ext v file_path = Some (versioned path base ext K)"
  using assms
proof (induction "K - v" arbitrary: v file_path)
  case 0
  then show ?case by simp
next
  case (Suc d)
  have step: "unique_loop fs path base ext v file_path =
          unique_loop fs path base ext (v + 1) (versioned path base ext (v + 1))"
    using Suc.prems(4) by (subst unique_loop.simps) (simp add: versioned_def)
  show ?case
  proof (cases "v + 1 = K")
    case True
    then have "unique_loop fs path base ext (v + 1) (versioned path base ext (v + 1)) =
                 Some (versioned path base ext K)"
      using Suc.prems(1) by (subst unique_loop.simps) simp
    then show ?thesis
      using step by simp
  next
    case False
    then have lt: "v + 1 < K" using Suc.prems(2) by simp
    have "unique_loop fs path base ext (v + 1) (versioned path base ext (v + 1)) =
            Some (versioned path base ext K)"
    proof (rule Suc.hyps(1))
      show "d = K - (v + 1)" using Suc.hyps(2) by simp
      show "\<not> os_path_exists fs (versioned path base ext K)" by (rule Suc.prems(1))
      show "v + 1 < K" by (rule lt)
      show "\<forall>j. v + 1 < j \<and> j < K \<longrightarrow> os_path_exists fs (versioned path base ext j)"
        using Suc.prems(3) by simp
      show "os_path_exists fs (versioned path base ext (v + 1))"
        using Suc.prems(3) lt by simp
    qed
    then show ?thesis
      using step by simp
  qed
qed

text \<open>
  C9. On every file system that holds finitely many paths, \<open>get_unique_filename\<close>
  returns, and the path it returns does not exist: it is the unversioned name when
  that is free, and otherwise the versioned name of the first version from 2 on that
  is free, every earlier version existing. So the export to that path changes no path
  that exists. Likewise \<open>get_next_filename\<close> returns the versioned svg name of the
  first version from 1 on that does not exist.
\<close>

theorem output_name_is_free:
  assumes "finite (dom fs)"
  shows "(\<exists>p. get_unique_filename fs path base ext = Some p
            \<and> \<not> os_path_exists fs p
            \<and> (\<forall>q. os_path_exists fs q \<longrightarrow> to_excel fs p sheet q = fs q)
            \<and> (if os_path_exists fs (os_path_join path (base @ ''.'' @ ext))
               then \<exists>K\<ge>2. p = versioned path base ext K
                      \<and> (\<forall>j. 2 \<le> j \<and> j < K \<longrightarrow> os_path_exists fs (versioned path base ext j))
               else p = os_path_join path (base @ ''.'' @ ext)))
       \<and> (\<exists>K\<ge>1. get_next_filename fs plot_base = Some (svg_name plot_base K)
            \<and> \<not> os_path_exists fs (svg_name plot_base K)
            \<and> (\<forall>j. 1 \<le> j \<and> j < K \<longrightarrow> os_path_exists fs (svg_name plot_base j)))"
proof (rule conjI)
  let ?plain = "os_path_join path (base @ ''.'' @ ext)"
  show "\<exists>p. get_unique_filename fs path base ext = Some p
            \<and> \<not> os_path_exists fs p
            \<and> (\<forall>q. os_path_exists fs q \<longrightarrow> to_excel fs p sheet q = fs q)
            \<and> (if os_path_exists fs ?plain
               then \<exists>K\<ge>2. p = versioned path base ext K
                      \<and> (\<forall>j. 2 \<le> j \<and> j < K \<longrightarrow> os_path_exists fs (versioned path base ext j))
               else p = ?plain)"
  proof (cases "os_path_exists fs ?plain")
    case False
    then have "get_unique_filename fs path base ext = Some ?plain"
      unfolding get_unique_filename_def by (subst unique_loop.simps) simp
    then show ?thesis
      using False by (auto simp: to_excel_def)
  next
    case True
    have "inj (versioned path base ext)"
      by (rule injI) (rule versioned_inj)
    from free_candidate [OF assms this, of 2]
    obtain K where K: "2 \<le> K" "\<not> os_path_exists fs (versioned path base ext K)"
      "\<forall>j. 2 \<le> j \<and> j < K \<longrightarrow> os_path_exists fs (versioned path base ext j)"
      by blast
    have "unique_loop fs path base ext 1 ?plain = Some (versioned path base ext K)"
    proof (rule unique_loop_first_free)
      show "\<not> os_path_exists fs (versioned path base ext K)" by (rule K(2))
      show "1 < K" using K(1) by simp
      show "\<forall>j. 1 < j \<and> j < K \<longrightarrow> os_path_exists fs (versioned path base ext j)"
        using K(3) by simp
      show "os_path_exists fs ?plain" by (rule True)
    qed
    then have "get_unique_filename fs path base ext = Some (versioned path base ext K)"
      by (simp add: get_unique_filename_def)
    then show ?thesis
      using True K by (auto simp: to_excel_def)
  qed
next
  have "inj (svg_name plot_base)"
    by (rule injI) (rule svg_name_inj)
  from free_candidate [OF assms this, of 1]
  obtain K where K: "1 \<le> K" "\<not> os_path_exists fs (svg_name plot_base K)"
    "\<forall>j. 1 \<le> j \<and> j < K \<longrightarrow> os_path_exists fs (svg_name plot_base j)"
    by blast
  have "next_loop fs plot_base 1 = Some (svg_name plot_base K)"
    using K by (intro next_loop_first_free) simp_all
  then show "\<exists>K\<ge>1. get_next_filename fs plot_base = Some (svg_name plot_base K)
            \<and> \<not> os_path_exists fs (svg_name plot_base K)
            \<and> (\<forall>j. 1 \<le> j \<and> j < K \<longrightarrow> os_path_exists fs (svg_name plot_base j))"
    using K by (auto simp: get_next_filename_def)
qed

theorem output_name_is_free_witness:
  "finite (dom demo_fs)
   \<and> os_path_exists demo_fs ''/out/run.xlsx''
   \<and> os_path_exists demo_fs ''/out/run_v2.xlsx''
   \<and> get_unique_filename demo_fs ''/out'' ''run'' ''xlsx'' = Some ''/out/run_v3.xlsx''
   \<and> get_unique_filename demo_fs ''/out'' ''other'' ''xlsx'' = Some ''/out/other.xlsx''
   \<and> get_next_filename demo_fs ''/out/plot'' = Some ''/out/plot_v2.svg''"
  using output_name_is_free
    [where fs = demo_fs and path = "''/out''" and base = "''run''" and ext = "''xlsx''"
       and sheet = "[]" and plot_base = "''/out/plot''"]
  by (simp add: get_unique_filename_def unique_loop.simps get_next_filename_def
        next_loop.simps demo_fs_def os_path_exists_def os_path_join_def str_nat.simps
        digit_char_def)

end
